theory Spec2Isabelle
  imports Main "HOL-Library.Word" "HOL-Library.Multiset"
begin

section \<open>TFDeviceSupport.h: device kinds and their names\<close>

text \<open>
  \<^verbatim>\<open>enum class DeviceType { INVALID, CPU, GPU, TPU, ALL };\<close>
  The enumerators take the values 0 to 4 in this order.
\<close>

datatype DeviceType = INVALID | CPU | GPU | TPU | ALL'

text \<open>\<^verbatim>\<open>static const int NUM_DEVICE_TYPES = 5;\<close> Every use in the header compares it
  with, or indexes by, an \<^verbatim>\<open>unsigned\<close>, so it is kept at that type.\<close>

definition NUM_DEVICE_TYPES :: "32 word" where
  "NUM_DEVICE_TYPES = 5"

text \<open>The cast \<^verbatim>\<open>(unsigned)device\<close>.\<close>

fun to_unsigned :: "DeviceType \<Rightarrow> 32 word" where
  "to_unsigned INVALID = 0"
| "to_unsigned CPU = 1"
| "to_unsigned GPU = 2"
| "to_unsigned TPU = 3"
| "to_unsigned ALL' = 4"

text \<open>The cast \<^verbatim>\<open>(DeviceType)deviceIdx\<close>. A value above 4 is no enumerator of the
  enum; the model returns \<open>None\<close> there.\<close>

definition to_DeviceType :: "32 word \<Rightarrow> DeviceType option" where
  "to_DeviceType i =
     (if i = 0 then Some INVALID
      else if i = 1 then Some CPU
      else if i = 2 then Some GPU
      else if i = 3 then Some TPU
      else if i = 4 then Some ALL'
      else None)"

text \<open>A failed \<^verbatim>\<open>assert\<close> and a reached \<^verbatim>\<open>llvm_unreachable\<close> both end the
  program; each carries the text written in the source. \<open>NotAnEnumerator\<close> is the
  model's own: a traversal that reads \<^verbatim>\<open>*it\<close> at an index above 4 has no kind to
  report, and stops with the index.\<close>

datatype error = AssertionFailed string | Unreachable string | NotAnEnumerator "32 word"

definition DEFAULT_CPU_DEVICE :: string where
  "DEFAULT_CPU_DEVICE = ''/device:CPU:0''"

definition DEFAULT_GPU_DEVICE :: string where
  "DEFAULT_GPU_DEVICE = ''/device:GPU:0''"

definition DEFAULT_TPU_DEVICE :: string where
  "DEFAULT_TPU_DEVICE = ''TPU_SYSTEM''"

definition ALL_DEVICES :: string where
  "ALL_DEVICES = ''ALL_DEVICES''"

definition getOpDeviceType :: "string \<Rightarrow> error + DeviceType" where
  "getOpDeviceType device =
     (if device = DEFAULT_CPU_DEVICE then Inr CPU
      else if device = DEFAULT_GPU_DEVICE then Inr GPU
      else if device = DEFAULT_TPU_DEVICE then Inr TPU
      else if device = ALL_DEVICES then Inr ALL'
      else Inl (Unreachable ''Unknown device type''))"

fun getDeviceString :: "DeviceType \<Rightarrow> error + string" where
  "getDeviceString CPU = Inr DEFAULT_CPU_DEVICE"
| "getDeviceString GPU = Inr DEFAULT_GPU_DEVICE"
| "getDeviceString TPU = Inr DEFAULT_TPU_DEVICE"
| "getDeviceString ALL' = Inr ALL_DEVICES"
| "getDeviceString INVALID = Inl (Unreachable ''Unsupported device type'')"

fun getDeviceShortName :: "DeviceType \<Rightarrow> error + string" where
  "getDeviceShortName CPU = Inr ''CPU''"
| "getDeviceShortName GPU = Inr ''GPU''"
| "getDeviceShortName TPU = Inr ''TPU''"
| "getDeviceShortName ALL' = Inr ''ALL''"
| "getDeviceShortName INVALID = Inl (Unreachable ''Unsupported device type'')"

section \<open>GraphFunctionDeviceInfo\<close>

text \<open>
  The struct's four fields. \<open>usedDeviceTypes\<close> is the array
  \<^verbatim>\<open>bool usedDeviceTypes[NUM_DEVICE_TYPES]\<close>, a list of five booleans indexed by
  \<open>to_unsigned\<close>; \<open>numUsedDeviceTypes\<close> is an \<^verbatim>\<open>unsigned\<close>.
\<close>

record GraphFunctionDeviceInfo =
  primaryDeviceType :: DeviceType
  isTPUInfeedEnabled :: bool
  numUsedDeviceTypes :: "32 word"
  usedDeviceTypes :: "bool list"

text \<open>The private constructor: one assertion, \<^verbatim>\<open>memset\<close> to zero, the primary's
  slot set, the count set to one.\<close>

definition GraphFunctionDeviceInfo_ctor ::
  "DeviceType \<Rightarrow> bool \<Rightarrow> error + GraphFunctionDeviceInfo" where
  "GraphFunctionDeviceInfo_ctor primary infeed =
     (if primary = ALL' then Inl (AssertionFailed ''primaryDeviceType != DeviceType::ALL'')
      else Inr \<lparr> primaryDeviceType = primary,
                 isTPUInfeedEnabled = infeed,
                 numUsedDeviceTypes = 1,
                 usedDeviceTypes =
                   (replicate (unat NUM_DEVICE_TYPES) False)
                     [unat (to_unsigned primary) := True] \<rparr>)"

definition markDeviceUsed ::
  "GraphFunctionDeviceInfo \<Rightarrow> DeviceType \<Rightarrow> error + GraphFunctionDeviceInfo" where
  "markDeviceUsed s device =
     (if device = INVALID then Inl (AssertionFailed ''device != DeviceType::INVALID'')
      else if device = ALL' \<or> usedDeviceTypes s ! unat (to_unsigned device) then Inr s
      else Inr (s \<lparr> usedDeviceTypes :=
                      (usedDeviceTypes s)[unat (to_unsigned device) := True],
                    numUsedDeviceTypes := numUsedDeviceTypes s + 1 \<rparr>))"

text \<open>A sequence of \<open>markDeviceUsed\<close> calls on the same object; the first failed
  assertion ends the run.\<close>

fun markDevicesUsed ::
  "GraphFunctionDeviceInfo \<Rightarrow> DeviceType list \<Rightarrow> error + GraphFunctionDeviceInfo" where
  "markDevicesUsed s [] = Inr s"
| "markDevicesUsed s (d # ds) =
     (case markDeviceUsed s d of
        Inl e \<Rightarrow> Inl e
      | Inr s' \<Rightarrow> markDevicesUsed s' ds)"

subsection \<open>DeviceTypeMgr and its iterator\<close>

text \<open>
  An iterator holds the pointer to the indicator array and an \<^verbatim>\<open>unsigned\<close> index.
  The model keeps the array's contents in place of the pointer: the iterators compared
  during one traversal come from the same manager, so equal pointers are equal contents.
\<close>

record iterator =
  it_usedDeviceTypes :: "bool list"
  deviceIdx :: "32 word"

text \<open>The constructor's two assertions; \<^verbatim>\<open>deviceIdx >= 0\<close> holds for every
  unsigned value.\<close>

definition iterator_ctor :: "bool list \<Rightarrow> 32 word \<Rightarrow> error + iterator" where
  "iterator_ctor used idx =
     (if \<not> (0 \<le> idx) then Inl (AssertionFailed ''deviceIdx >= 0'')
      else if \<not> (idx \<le> NUM_DEVICE_TYPES) then
        Inl (AssertionFailed ''deviceIdx <= NUM_DEVICE_TYPES'')
      else Inr \<lparr> it_usedDeviceTypes = used, deviceIdx = idx \<rparr>)"

text \<open>Facts about 32-bit unsigned values below \<open>NUM_DEVICE_TYPES\<close>, used for the
  termination of the iterator's loops.\<close>

lemma word_less_5_cases:
  fixes x :: "32 word"
  assumes "x < 5"
  shows "x = 0 \<or> x = 1 \<or> x = 2 \<or> x = 3 \<or> x = 4"
proof -
  from assms have "unat x < 5" by (simp add: word_less_nat_alt)
  then consider "unat x = 0" | "unat x = 1" | "unat x = 2" | "unat x = 3" | "unat x = 4"
    by arith
  then show ?thesis
  proof cases
    case 1
    have "word_of_nat (unat x) = (0::32 word)" unfolding 1 by simp
    then show ?thesis by simp
  next
    case 2
    have "word_of_nat (unat x) = (1::32 word)" unfolding 2 by simp
    then show ?thesis by simp
  next
    case 3
    have "word_of_nat (unat x) = (2::32 word)" unfolding 3 by simp
    then show ?thesis by simp
  next
    case 4
    have "word_of_nat (unat x) = (3::32 word)" unfolding 4 by simp
    then show ?thesis by simp
  next
    case 5
    have "word_of_nat (unat x) = (4::32 word)" unfolding 5 by simp
    then show ?thesis by simp
  qed
qed

lemma succ_less_5_cases:
  fixes idx :: "32 word"
  assumes "idx + 1 < NUM_DEVICE_TYPES"
  shows "idx = -1 \<or> idx = 0 \<or> idx = 1 \<or> idx = 2 \<or> idx = 3"
proof -
  from assms have "idx + 1 = 0 \<or> idx + 1 = 1 \<or> idx + 1 = 2 \<or> idx + 1 = 3 \<or> idx + 1 = 4"
    unfolding NUM_DEVICE_TYPES_def by (rule word_less_5_cases)
  then have "idx + 1 - 1 = 0 - 1 \<or> idx + 1 - 1 = 1 - 1 \<or> idx + 1 - 1 = 2 - 1
     \<or> idx + 1 - 1 = 3 - 1 \<or> idx + 1 - 1 = 4 - 1"
    by (elim disjE) (simp_all only: simp_thms)
  then show ?thesis by simp
qed

lemma succ_less_5_measure:
  fixes idx :: "32 word"
  shows "idx + 1 < NUM_DEVICE_TYPES \<Longrightarrow> unat (3 - idx) < unat (4 - idx)"
  by (drule succ_less_5_cases) (elim disjE; simp)

text \<open>
  \<^verbatim>\<open>operator++()\<close>: the loop \<^verbatim>\<open>while (++deviceIdx < NUM_DEVICE_TYPES)\<close>. Each
  round increments the index first (in 32-bit unsigned arithmetic), skips a slot that is
  not set, and stops at a set slot after the two assertions on the kind it stands for, or
  at the first index that is not below \<open>NUM_DEVICE_TYPES\<close>.
\<close>

function iterator_incr :: "iterator \<Rightarrow> error + iterator" where
  "iterator_incr it =
     (if deviceIdx it + 1 < NUM_DEVICE_TYPES then
        (if \<not> it_usedDeviceTypes it ! unat (deviceIdx it + 1) then
           iterator_incr (it \<lparr> deviceIdx := deviceIdx it + 1 \<rparr>)
         else if to_DeviceType (deviceIdx it + 1) = Some INVALID then
           Inl (AssertionFailed ''ret != DeviceType::INVALID'')
         else if to_DeviceType (deviceIdx it + 1) = Some ALL' then
           Inl (AssertionFailed ''ret != DeviceType::ALL'')
         else Inr (it \<lparr> deviceIdx := deviceIdx it + 1 \<rparr>))
      else Inr (it \<lparr> deviceIdx := deviceIdx it + 1 \<rparr>))"
  by pat_completeness auto
termination
  by (relation "measure (\<lambda>it. unat (4 - deviceIdx it))") (simp_all add: succ_less_5_measure)

declare iterator_incr.simps [simp del]

text \<open>\<^verbatim>\<open>operator==\<close>, \<^verbatim>\<open>operator!=\<close> and \<^verbatim>\<open>operator*\<close>.\<close>

definition iterator_eq :: "iterator \<Rightarrow> iterator \<Rightarrow> bool" where
  "iterator_eq a b \<longleftrightarrow>
     it_usedDeviceTypes a = it_usedDeviceTypes b \<and> deviceIdx a = deviceIdx b"

definition iterator_neq :: "iterator \<Rightarrow> iterator \<Rightarrow> bool" where
  "iterator_neq a b \<longleftrightarrow> \<not> iterator_eq a b"

definition iterator_deref :: "iterator \<Rightarrow> DeviceType option" where
  "iterator_deref it = to_DeviceType (deviceIdx it)"

text \<open>\<^verbatim>\<open>DeviceTypeMgr\<close> holds the pointer to the array only. \<^verbatim>\<open>begin()\<close> builds an
  iterator at index 0 and returns it incremented; \<^verbatim>\<open>end()\<close> is the iterator at
  \<open>NUM_DEVICE_TYPES\<close>.\<close>

type_synonym DeviceTypeMgr = "bool list"

definition DeviceTypeMgr_begin :: "DeviceTypeMgr \<Rightarrow> error + iterator" where
  "DeviceTypeMgr_begin mgr =
     (case iterator_ctor mgr 0 of
        Inl e \<Rightarrow> Inl e
      | Inr ret \<Rightarrow> iterator_incr ret)"

definition DeviceTypeMgr_end :: "DeviceTypeMgr \<Rightarrow> error + iterator" where
  "DeviceTypeMgr_end mgr = iterator_ctor mgr NUM_DEVICE_TYPES"

definition getUsedDeviceTypes :: "GraphFunctionDeviceInfo \<Rightarrow> DeviceTypeMgr" where
  "getUsedDeviceTypes s = usedDeviceTypes s"

text \<open>An increment from an index below \<open>NUM_DEVICE_TYPES\<close> moves the index forward,
  at most to \<open>NUM_DEVICE_TYPES\<close>, and keeps the array.\<close>

lemma less_5_succ:
  fixes idx :: "32 word"
  shows "idx < 5 \<Longrightarrow> idx < idx + 1 \<and> idx + 1 \<le> 5"
  by (drule word_less_5_cases) (elim disjE; simp)

lemma iterator_incr_bounds:
  "iterator_incr it = Inr it' \<Longrightarrow> deviceIdx it < 5 \<Longrightarrow>
     deviceIdx it < deviceIdx it' \<and> deviceIdx it' \<le> 5 \<and>
     it_usedDeviceTypes it' = it_usedDeviceTypes it"
proof (induction it rule: iterator_incr.induct)
  case (1 it)
  from "1.prems"(2) have step: "deviceIdx it < deviceIdx it + 1" "deviceIdx it + 1 \<le> 5"
    using less_5_succ by auto
  show ?case
  proof (cases "deviceIdx it + 1 < NUM_DEVICE_TYPES
                  \<and> \<not> it_usedDeviceTypes it ! unat (deviceIdx it + 1)")
    case True
    then have rec: "iterator_incr (it \<lparr> deviceIdx := deviceIdx it + 1 \<rparr>) = Inr it'"
      using "1.prems"(1) by (subst (asm) iterator_incr.simps) simp
    from True have "deviceIdx (it \<lparr> deviceIdx := deviceIdx it + 1 \<rparr>) < 5"
      by (simp add: NUM_DEVICE_TYPES_def)
    from "1.IH"[OF _ _ rec this] True
    have "deviceIdx it + 1 < deviceIdx it' \<and> deviceIdx it' \<le> 5 \<and>
          it_usedDeviceTypes it' = it_usedDeviceTypes it" by simp
    with step show ?thesis by auto
  next
    case False
    then have "it' = it \<lparr> deviceIdx := deviceIdx it + 1 \<rparr>"
      using "1.prems"(1) by (subst (asm) iterator_incr.simps) (auto split: if_splits)
    with step show ?thesis by simp
  qed
qed

lemma to_DeviceType_Some_less: "to_DeviceType i = Some d \<Longrightarrow> i < 5"
  by (auto simp: to_DeviceType_def split: if_splits)

lemma range_loop_measure:
  assumes "iterator_deref it = Some d" and "iterator_incr it = Inr it'"
  shows "5 - unat (deviceIdx it') < 5 - unat (deviceIdx it)"
proof -
  from assms(1) have lt: "deviceIdx it < 5"
    by (simp add: iterator_deref_def to_DeviceType_Some_less)
  from iterator_incr_bounds[OF assms(2) lt]
  have "unat (deviceIdx it) < unat (deviceIdx it')" by (simp add: word_less_nat_alt)
  moreover from lt have "unat (deviceIdx it) < 5" by (simp add: word_less_nat_alt)
  ultimately show ?thesis by arith
qed

text \<open>
  The traversal a caller writes, \<^verbatim>\<open>for (auto it = mgr.begin(); it != mgr.end(); ++it)\<close>
  (or the range-based \<^verbatim>\<open>for\<close> over \<^verbatim>\<open>getUsedDeviceTypes()\<close>), collecting
  \<^verbatim>\<open>*it\<close> at every round: test \<^verbatim>\<open>it != end\<close>, read \<^verbatim>\<open>*it\<close>, then
  \<^verbatim>\<open>++it\<close>. A failed assertion of \<^verbatim>\<open>operator++\<close> ends the traversal.
\<close>

function range_loop :: "iterator \<Rightarrow> iterator \<Rightarrow> error + DeviceType list" where
  "range_loop it en =
     (if \<not> iterator_neq it en then Inr []
      else (case iterator_deref it of
              None \<Rightarrow> Inl (NotAnEnumerator (deviceIdx it))
            | Some d \<Rightarrow>
                (case iterator_incr it of
                   Inl e \<Rightarrow> Inl e
                 | Inr it' \<Rightarrow>
                     (case range_loop it' en of
                        Inl e \<Rightarrow> Inl e
                      | Inr ds \<Rightarrow> Inr (d # ds)))))"
  by pat_completeness auto
termination
  by (relation "measure (\<lambda>(it, en). 5 - unat (deviceIdx it))")
     (simp_all add: range_loop_measure)

declare range_loop.simps [simp del]

definition DeviceTypeMgr_range :: "DeviceTypeMgr \<Rightarrow> error + DeviceType list" where
  "DeviceTypeMgr_range mgr =
     (case DeviceTypeMgr_begin mgr of
        Inl e \<Rightarrow> Inl e
      | Inr b \<Rightarrow>
          (case DeviceTypeMgr_end mgr of
             Inl e \<Rightarrow> Inl e
           | Inr en \<Rightarrow> range_loop b en))"

text \<open>One whole life of a tracker: construction with a primary device, a sequence of
  \<open>markDeviceUsed\<close> calls, then the traversal of \<open>getUsedDeviceTypes()\<close>.\<close>

definition usedDevicesAfter ::
  "DeviceType \<Rightarrow> bool \<Rightarrow> DeviceType list \<Rightarrow> error + DeviceType list" where
  "usedDevicesAfter primary infeed ks =
     (case GraphFunctionDeviceInfo_ctor primary infeed of
        Inl e \<Rightarrow> Inl e
      | Inr s0 \<Rightarrow>
          (case markDevicesUsed s0 ks of
             Inl e \<Rightarrow> Inl e
           | Inr s \<Rightarrow> DeviceTypeMgr_range (getUsedDeviceTypes s)))"

text \<open>The number of indicators that are set.\<close>

definition numSet :: "bool list \<Rightarrow> nat" where
  "numSet used = length (filter (\<lambda>b. b) used)"

section \<open>DevicePartitioner\<close>

text \<open>
  The header declares the class \<^verbatim>\<open>DevicePartitioner\<close>, its constructor
  \<^verbatim>\<open>DevicePartitioner(SILFunction &srcFn, const GraphFunctionDeviceInfo &deviceInfo,
  int &nextTensorTransferId)\<close> and \<^verbatim>\<open>extractFunctionForDevice\<close>; the class
  \<^verbatim>\<open>DevicePartitionerImpl\<close> that does the work is declared and not defined there. This
  section models the partitioning from the specification's algorithm (its section 4.3);
  only the constructor's three parameters and the traversal of the used devices come from
  the header.
\<close>

text \<open>Modelled from the spec: the operations of a subgraph, which \<^verbatim>\<open>DevicePartitionerImpl\<close> would
  build. A subgraph holds copies of source operations and the inserted send and receive
  operations; a send and a receive name the value they move and carry a TransferId.\<close>

datatype node = is_Copy: Copy nat | is_Send: Send nat int | is_Recv: Recv nat int

text \<open>Modelled from the spec: the TransferId a send or receive carries (a copy carries none; 0 is
  never read for it).\<close>

fun transferId :: "node \<Rightarrow> int" where
  "transferId (Copy v) = 0"
| "transferId (Send v t) = t"
| "transferId (Recv v t) = t"

text \<open>Modelled from the spec: the value an operation of a subgraph produces, sends or receives.\<close>

fun transferred_value :: "node \<Rightarrow> nat" where
  "transferred_value (Copy v) = v"
| "transferred_value (Send v t) = v"
| "transferred_value (Recv v t) = v"

text \<open>Modelled from the spec: an operation of the source graph, of the external graph representation:
  the value it produces, its device attribute (a kind, possibly the all-devices kind), and
  the values it consumes.\<close>

record operation =
  op_value :: nat
  op_device :: DeviceType
  op_operands :: "nat list"

text \<open>Modelled from the spec: the ways a partitioning session aborts. The traversal of the used
  devices can fail; the specification makes an \<open>Invalid\<close> device a fatal contract
  violation; it leaves open an operation placed on a device that has no subgraph and an
  operand that no earlier operation produced, and the model stops there.\<close>

datatype partition_error =
  TrackerFailed error | InvalidDevice nat | NoSubgraph DeviceType | NoProducer nat

text \<open>Modelled from the spec: the state of one session of \<^verbatim>\<open>DevicePartitionerImpl\<close>: one subgraph
  per used device, the device each value was produced on, the transfers made so far keyed
  by producer value and destination device, and the shared counter
  \<^verbatim>\<open>nextTensorTransferId\<close>. The specification calls the counter a monotonically
  increasing integer, so it is an unbounded \<open>int\<close> here; the header's \<^verbatim>\<open>int\<close> is
  32 bits wide.\<close>

record partitioner =
  subgraphs :: "(DeviceType \<times> node list) list"
  producedOn :: "(nat \<times> DeviceType) list"
  transferred :: "((nat \<times> DeviceType) \<times> int) list"
  nextTensorTransferId :: int

text \<open>Modelled from the spec: appending an operation to the subgraph of one device.\<close>

definition append_node ::
  "DeviceType \<Rightarrow> node \<Rightarrow> (DeviceType \<times> node list) list \<Rightarrow> (DeviceType \<times> node list) list" where
  "append_node d x sgs = map (\<lambda>(k, ns). if k = d then (k, ns @ [x]) else (k, ns)) sgs"

text \<open>Modelled from the spec: rewriting one operand for a destination device (step 3). A value
  replicated on all devices, or produced on the destination, is referenced directly; a pair
  of producer value and destination already transferred reuses its receive; otherwise a send
  goes into the producer's subgraph and a receive into the destination's, both with the next
  value of the counter, which is then incremented.\<close>

definition rewrite_operand ::
  "DeviceType \<Rightarrow> partitioner \<Rightarrow> nat \<Rightarrow> partition_error + partitioner" where
  "rewrite_operand d st v =
     (case map_of (producedOn st) v of
        None \<Rightarrow> Inl (NoProducer v)
      | Some p \<Rightarrow>
          if p = ALL' \<or> p = d then Inr st
          else (case map_of (transferred st) (v, d) of
                  Some t \<Rightarrow> Inr st
                | None \<Rightarrow>
                    Inr (st \<lparr> subgraphs :=
                               append_node d (Recv v (nextTensorTransferId st))
                                 (append_node p (Send v (nextTensorTransferId st))
                                    (subgraphs st)),
                             transferred :=
                               ((v, d), nextTensorTransferId st) # transferred st,
                             nextTensorTransferId := nextTensorTransferId st + 1 \<rparr>)))"

text \<open>Modelled from the spec: rewriting every operand of an operation, in order.\<close>

fun rewrite_operands ::
  "DeviceType \<Rightarrow> partitioner \<Rightarrow> nat list \<Rightarrow> partition_error + partitioner" where
  "rewrite_operands d st [] = Inr st"
| "rewrite_operands d st (v # vs) =
     (case rewrite_operand d st v of
        Inl e \<Rightarrow> Inl e
      | Inr st' \<Rightarrow> rewrite_operands d st' vs)"

text \<open>Modelled from the spec: placing one copy of an operation in a device's subgraph, after its
  operands are rewritten for that device (step 2b).\<close>

definition place_copy ::
  "DeviceType \<Rightarrow> operation \<Rightarrow> partitioner \<Rightarrow> partition_error + partitioner" where
  "place_copy d opn st =
     (if d \<notin> set (map fst (subgraphs st)) then Inl (NoSubgraph d)
      else (case rewrite_operands d st (op_operands opn) of
              Inl e \<Rightarrow> Inl e
            | Inr st' \<Rightarrow>
                Inr (st' \<lparr> subgraphs :=
                            append_node d (Copy (op_value opn)) (subgraphs st') \<rparr>)))"

text \<open>Modelled from the spec: replication (step 2c): one copy in every used device's subgraph, each
  with its operands rewritten for that device.\<close>

fun place_copies ::
  "DeviceType list \<Rightarrow> operation \<Rightarrow> partitioner \<Rightarrow> partition_error + partitioner" where
  "place_copies [] opn st = Inr st"
| "place_copies (d # ds) opn st =
     (case place_copy d opn st of
        Inl e \<Rightarrow> Inl e
      | Inr st' \<Rightarrow> place_copies ds opn st')"

text \<open>Modelled from the spec: one operation of the traversal (step 2): resolve the device attribute,
  place the copy or the copies, and record where the value now exists.\<close>

definition partition_op ::
  "partitioner \<Rightarrow> operation \<Rightarrow> partition_error + partitioner" where
  "partition_op st opn =
     (if op_device opn = INVALID then Inl (InvalidDevice (op_value opn))
      else (case (if op_device opn = ALL'
                  then place_copies (map fst (subgraphs st)) opn st
                  else place_copy (op_device opn) opn st) of
              Inl e \<Rightarrow> Inl e
            | Inr st' \<Rightarrow>
                Inr (st' \<lparr> producedOn :=
                            (op_value opn, op_device opn) # producedOn st' \<rparr>)))"

text \<open>Modelled from the spec: the traversal of the source graph's operations in their original
  order.\<close>

fun partition_ops ::
  "partitioner \<Rightarrow> operation list \<Rightarrow> partition_error + partitioner" where
  "partition_ops st [] = Inr st"
| "partition_ops st (opn # ops) =
     (case partition_op st opn of
        Inl e \<Rightarrow> Inl e
      | Inr st' \<Rightarrow> partition_ops st' ops)"

text \<open>Modelled from the spec: a partitioning session (steps 1 and 2): one empty subgraph per used
  device, in the order of the traversal of \<open>getUsedDeviceTypes\<close>, then the operations
  in order, starting from the counter's value passed in.\<close>

definition DevicePartitioner ::
  "operation list \<Rightarrow> GraphFunctionDeviceInfo \<Rightarrow> int \<Rightarrow> partition_error + partitioner" where
  "DevicePartitioner srcFn deviceInfo nextId =
     (case DeviceTypeMgr_range (getUsedDeviceTypes deviceInfo) of
        Inl e \<Rightarrow> Inl (TrackerFailed e)
      | Inr used \<Rightarrow>
          partition_ops
            \<lparr> subgraphs = map (\<lambda>d. (d, [])) used, producedOn = [], transferred = [],
              nextTensorTransferId = nextId \<rparr> srcFn)"

text \<open>Modelled from the spec: the operations of all subgraphs of a session, and the sends and the
  receives among them.\<close>

definition all_nodes :: "partitioner \<Rightarrow> node list" where
  "all_nodes st = concat (map snd (subgraphs st))"

text \<open>Modelled from the spec: the send operations inserted in a session.\<close>

definition sends :: "partitioner \<Rightarrow> node list" where
  "sends st = filter is_Send (all_nodes st)"

text \<open>Modelled from the spec: the receive operations inserted in a session.\<close>

definition recvs :: "partitioner \<Rightarrow> node list" where
  "recvs st = filter is_Recv (all_nodes st)"

text \<open>Modelled from the spec: what identifies a transfer: the value moved and the TransferId.\<close>

definition transfer_of :: "node \<Rightarrow> nat \<times> int" where
  "transfer_of x = (transferred_value x, transferId x)"

text \<open>Modelled from the spec: the invariant of a session that started with the counter at \<open>n0\<close>:
  distinct devices; the receives match the sends, value and TransferId; the sends' ids are
  distinct and lie between \<open>n0\<close> and the counter; the counter has advanced by the number
  of sends; every recorded producer device has a subgraph.\<close>

definition partition_inv :: "int \<Rightarrow> partitioner \<Rightarrow> bool" where
  "partition_inv n0 st \<longleftrightarrow>
     distinct (map fst (subgraphs st)) \<and>
     mset (map transfer_of (recvs st)) = mset (map transfer_of (sends st)) \<and>
     distinct (map transferId (sends st)) \<and>
     (\<forall>x \<in> set (sends st). n0 \<le> transferId x \<and> transferId x < nextTensorTransferId st) \<and>
     nextTensorTransferId st = n0 + int (length (sends st)) \<and>
     (\<forall>(v, p) \<in> set (producedOn st). p = ALL' \<or> p \<in> set (map fst (subgraphs st)))"

section \<open>The traversal, computed\<close>

text \<open>On an array of five indicators the traversal fails exactly when the slot of
  \<open>ALL'\<close> is set, and otherwise lists the kinds among CPU, GPU and TPU whose slot is
  set, in this order. The slot of \<open>INVALID\<close> is never read.\<close>

lemma range_five:
  "DeviceTypeMgr_range [b0, b1, b2, b3, b4] =
     (if b4 then Inl (AssertionFailed ''ret != DeviceType::ALL'')
      else Inr ((if b1 then [CPU] else []) @ (if b2 then [GPU] else []) @
                (if b3 then [TPU] else [])))"
  by (cases b1; cases b2; cases b3; cases b4;
      simp add: DeviceTypeMgr_range_def DeviceTypeMgr_begin_def DeviceTypeMgr_end_def
        iterator_ctor_def NUM_DEVICE_TYPES_def iterator_incr.simps range_loop.simps
        iterator_neq_def iterator_eq_def iterator_deref_def to_DeviceType_def)

lemma length_five:
  assumes "length xs = 5"
  obtains b0 b1 b2 b3 b4 where "xs = [b0, b1, b2, b3, b4]"
proof -
  from assms obtain b0 t0 where "xs = b0 # t0" "length t0 = 4" by (cases xs) auto
  moreover then obtain b1 t1 where "t0 = b1 # t1" "length t1 = 3" by (cases t0) auto
  moreover then obtain b2 t2 where "t1 = b2 # t2" "length t2 = 2" by (cases t1) auto
  moreover then obtain b3 t3 where "t2 = b3 # t3" "length t3 = 1" by (cases t2) auto
  moreover then obtain b4 where "t3 = [b4]" by (cases t3) auto
  ultimately show ?thesis using that by simp
qed

section \<open>The tracker's state, computed\<close>

text \<open>Facts about the enum's cast, the indicator count and the increment of the counter,
  then what the constructor and \<open>markDeviceUsed\<close> leave in the array.\<close>

lemma unat_to_unsigned_less: "unat (to_unsigned k) < 5"
  by (cases k) simp_all

lemma unat_to_unsigned_inj: "unat (to_unsigned j) = unat (to_unsigned k) \<longleftrightarrow> j = k"
  by (cases j; cases k) simp_all

lemma numSet_update:
  "i < length xs \<Longrightarrow> \<not> xs ! i \<Longrightarrow> numSet (xs[i := True]) = Suc (numSet xs)"
  unfolding numSet_def
  by (induction xs arbitrary: i) (auto split: nat.splits)

lemma numSet_replicate: "numSet (replicate n False) = 0"
  by (simp add: numSet_def)

lemma numSet_le: "numSet xs \<le> length xs"
  by (simp add: numSet_def)

lemma unat_succ_small:
  fixes n :: "32 word"
  assumes "unat n \<le> 5"
  shows "unat (n + 1) = Suc (unat n)"
proof -
  have "unat n + unat (1::32 word) < 2 ^ LENGTH(32)" using assms by simp
  then have "unat (n + 1) = unat n + unat (1::32 word)" by (simp only: unat_add_lem)
  then show ?thesis by simp
qed

lemma unat_succ_not_max:
  fixes n :: "32 word"
  assumes "n \<noteq> - 1"
  shows "unat (n + 1) = Suc (unat n)"
proof -
  from assms have "1 + n \<noteq> 0" using max_word_wrap [of n] by (auto simp: add.commute)
  from unatSuc [OF this] show ?thesis by (simp add: add.commute)
qed

lemma ctor_props:
  assumes "GraphFunctionDeviceInfo_ctor p b = Inr s0"
  shows "p \<noteq> ALL' \<and> length (usedDeviceTypes s0) = 5 \<and>
         (\<forall>k. usedDeviceTypes s0 ! unat (to_unsigned k) \<longleftrightarrow> k = p) \<and>
         unat (numUsedDeviceTypes s0) = numSet (usedDeviceTypes s0) \<and>
         primaryDeviceType s0 = p"
proof -
  from assms have p: "p \<noteq> ALL'"
    by (auto simp: GraphFunctionDeviceInfo_ctor_def split: if_splits)
  with assms have s0: "s0 = \<lparr> primaryDeviceType = p, isTPUInfeedEnabled = b,
      numUsedDeviceTypes = 1,
      usedDeviceTypes = (replicate 5 False)[unat (to_unsigned p) := True] \<rparr>"
    by (simp add: GraphFunctionDeviceInfo_ctor_def NUM_DEVICE_TYPES_def)
  have "\<And>k. usedDeviceTypes s0 ! unat (to_unsigned k) \<longleftrightarrow> k = p"
    unfolding s0 using unat_to_unsigned_less
    by (simp add: nth_list_update unat_to_unsigned_inj eq_commute)
  moreover have "unat (numUsedDeviceTypes s0) = numSet (usedDeviceTypes s0)"
    unfolding s0 using numSet_update [of "unat (to_unsigned p)" "replicate 5 False"]
      unat_to_unsigned_less [of p]
    by (simp add: numSet_replicate)
  ultimately show ?thesis using p unfolding s0 by simp
qed

lemma markDeviceUsed_props:
  assumes "markDeviceUsed s d = Inr s'" and "length (usedDeviceTypes s) = 5"
  shows "d \<noteq> INVALID \<and> length (usedDeviceTypes s') = 5 \<and>
         (\<forall>k. usedDeviceTypes s' ! unat (to_unsigned k) \<longleftrightarrow>
              usedDeviceTypes s ! unat (to_unsigned k) \<or> (k = d \<and> d \<noteq> ALL')) \<and>
         primaryDeviceType s' = primaryDeviceType s \<and>
         (unat (numUsedDeviceTypes s) = numSet (usedDeviceTypes s) \<longrightarrow>
          unat (numUsedDeviceTypes s') = numSet (usedDeviceTypes s'))"
proof (cases "d = ALL' \<or> usedDeviceTypes s ! unat (to_unsigned d)")
  case True
  with assms show ?thesis
    by (auto simp: markDeviceUsed_def split: if_splits)
next
  case False
  have lt: "unat (to_unsigned d) < length (usedDeviceTypes s)"
    using unat_to_unsigned_less assms(2) by simp
  from False assms(1) have d: "d \<noteq> INVALID"
    and s': "s' = s \<lparr> usedDeviceTypes := (usedDeviceTypes s)[unat (to_unsigned d) := True],
                      numUsedDeviceTypes := numUsedDeviceTypes s + 1 \<rparr>"
    by (auto simp: markDeviceUsed_def split: if_splits)
  have cnt: "unat (numUsedDeviceTypes s') = numSet (usedDeviceTypes s')"
    if h: "unat (numUsedDeviceTypes s) = numSet (usedDeviceTypes s)"
  proof -
    have "unat (numUsedDeviceTypes s) \<le> 5" using h numSet_le [of "usedDeviceTypes s"] assms(2)
      by simp
    then have "unat (numUsedDeviceTypes s + 1) = Suc (unat (numUsedDeviceTypes s))"
      by (rule unat_succ_small)
    moreover have "numSet ((usedDeviceTypes s)[unat (to_unsigned d) := True])
        = Suc (numSet (usedDeviceTypes s))"
      using lt False by (simp add: numSet_update)
    ultimately show ?thesis using h by (simp add: s')
  qed
  have "\<And>k. usedDeviceTypes s' ! unat (to_unsigned k) \<longleftrightarrow>
              usedDeviceTypes s ! unat (to_unsigned k) \<or> (k = d \<and> d \<noteq> ALL')"
    using lt False by (auto simp: s' nth_list_update unat_to_unsigned_inj)
  with d cnt assms(2) show ?thesis by (simp add: s')
qed

lemma markDevicesUsed_props:
  assumes "markDevicesUsed s ks = Inr s'" and "length (usedDeviceTypes s) = 5"
  shows "INVALID \<notin> set ks \<and> length (usedDeviceTypes s') = 5 \<and>
         (\<forall>k. usedDeviceTypes s' ! unat (to_unsigned k) \<longleftrightarrow>
              usedDeviceTypes s ! unat (to_unsigned k) \<or> (k \<in> set ks \<and> k \<noteq> ALL')) \<and>
         primaryDeviceType s' = primaryDeviceType s \<and>
         (unat (numUsedDeviceTypes s) = numSet (usedDeviceTypes s) \<longrightarrow>
          unat (numUsedDeviceTypes s') = numSet (usedDeviceTypes s'))"
  using assms
proof (induction ks arbitrary: s)
  case Nil
  then show ?case by simp
next
  case (Cons d ks)
  from Cons.prems(1) obtain s1 where s1: "markDeviceUsed s d = Inr s1"
    and rest: "markDevicesUsed s1 ks = Inr s'"
    by (auto split: sum.splits)
  note one = markDeviceUsed_props [OF s1 Cons.prems(2)]
  then have "length (usedDeviceTypes s1) = 5" by simp
  note more = Cons.IH [OF rest this]
  from one more show ?case by auto
qed

lemma markDevicesUsed_total:
  "INVALID \<notin> set ks \<Longrightarrow> \<exists>s'. markDevicesUsed s ks = Inr s'"
proof (induction ks arbitrary: s)
  case Nil
  then show ?case by simp
next
  case (Cons d ks)
  then have "d \<noteq> INVALID" by auto
  then have "\<exists>s1. markDeviceUsed s d = Inr s1"
    by (simp add: markDeviceUsed_def)
  then obtain s1 where "markDeviceUsed s d = Inr s1" ..
  moreover from Cons obtain s' where "markDevicesUsed s1 ks = Inr s'" by auto
  ultimately show ?case by simp
qed

lemma reachable_props:
  assumes "GraphFunctionDeviceInfo_ctor p b = Inr s0" and "markDevicesUsed s0 ks = Inr s"
  shows "p \<noteq> ALL' \<and> INVALID \<notin> set ks \<and> length (usedDeviceTypes s) = 5 \<and>
         (\<forall>k. usedDeviceTypes s ! unat (to_unsigned k) \<longleftrightarrow>
              k = p \<or> (k \<in> set ks \<and> k \<noteq> ALL')) \<and>
         unat (numUsedDeviceTypes s) = numSet (usedDeviceTypes s) \<and>
         primaryDeviceType s = p"
proof -
  note c = ctor_props [OF assms(1)]
  then have "length (usedDeviceTypes s0) = 5" by simp
  note m = markDevicesUsed_props [OF assms(2) this]
  from c m show ?thesis by simp
qed

lemma range_props:
  assumes "length used = 5" and "\<not> used ! 4"
  shows "\<exists>ds. DeviceTypeMgr_range used = Inr ds \<and>
           (\<forall>k. k \<in> set ds \<longleftrightarrow> k \<in> {CPU, GPU, TPU} \<and> used ! unat (to_unsigned k)) \<and>
           sorted_wrt (<) (map to_unsigned ds) \<and> distinct ds \<and>
           length ds + (if used ! 0 then 1 else 0) = numSet used"
proof -
  from assms(1) obtain b0 b1 b2 b3 b4 where u: "used = [b0, b1, b2, b3, b4]"
    by (rule length_five)
  with assms(2) have b4: "\<not> b4" by simp
  have mem: "k \<in> set ((if b1 then [CPU] else []) @ (if b2 then [GPU] else []) @
                (if b3 then [TPU] else [])) \<longleftrightarrow>
             k \<in> {CPU, GPU, TPU} \<and> [b0, b1, b2, b3, b4] ! unat (to_unsigned k)" for k
    by (cases k) (simp_all add: b4)
  show ?thesis
    unfolding u range_five using b4 mem
    by (simp add: numSet_def)
qed


lemma range_ignores_slot0:
  assumes "length used = 5"
  shows "DeviceTypeMgr_range (used[0 := b]) = DeviceTypeMgr_range used"
proof -
  from assms obtain b0 b1 b2 b3 b4 where u: "used = [b0, b1, b2, b3, b4]"
    by (rule length_five)
  show ?thesis unfolding u by (simp add: range_five)
qed

lemma range_result:
  assumes "length used = 5"
  shows "(\<forall>ds. DeviceTypeMgr_range used = Inr ds \<longrightarrow> INVALID \<notin> set ds \<and> ALL' \<notin> set ds) \<and>
         (used ! 4 \<longrightarrow> DeviceTypeMgr_range used = Inl (AssertionFailed ''ret != DeviceType::ALL''))"
proof -
  from assms obtain b0 b1 b2 b3 b4 where u: "used = [b0, b1, b2, b3, b4]"
    by (rule length_five)
  show ?thesis unfolding u range_five by auto
qed

lemma iterator_incr_no_assert:
  assumes "\<not> used ! 0" and "\<not> used ! 4"
  shows "it_usedDeviceTypes it = used \<Longrightarrow> \<exists>it'. iterator_incr it = Inr it'"
proof (induction it rule: iterator_incr.induct)
  case (1 it)
  show ?case
  proof (cases "deviceIdx it + 1 < NUM_DEVICE_TYPES
                  \<and> \<not> it_usedDeviceTypes it ! unat (deviceIdx it + 1)")
    case True
    with "1.IH" "1.prems" obtain it' where
      "iterator_incr (it \<lparr> deviceIdx := deviceIdx it + 1 \<rparr>) = Inr it'" by auto
    with True show ?thesis by (subst iterator_incr.simps) simp
  next
    case False
    have "to_DeviceType (deviceIdx it + 1) \<noteq> Some INVALID"
      if "it_usedDeviceTypes it ! unat (deviceIdx it + 1)"
      using that assms(1) "1.prems" by (auto simp: to_DeviceType_def split: if_splits)
    moreover have "to_DeviceType (deviceIdx it + 1) \<noteq> Some ALL'"
      if "it_usedDeviceTypes it ! unat (deviceIdx it + 1)"
      using that assms(2) "1.prems" by (auto simp: to_DeviceType_def split: if_splits)
    ultimately show ?thesis using False by (subst iterator_incr.simps) auto
  qed
qed

lemma ctor_five:
  "GraphFunctionDeviceInfo_ctor p b =
     (if p = ALL' then Inl (AssertionFailed ''primaryDeviceType != DeviceType::ALL'')
      else Inr \<lparr> primaryDeviceType = p, isTPUInfeedEnabled = b, numUsedDeviceTypes = 1,
                 usedDeviceTypes = [p = INVALID, p = CPU, p = GPU, p = TPU, False] \<rparr>)"
proof -
  have "unat NUM_DEVICE_TYPES = 5"
    by (simp add: NUM_DEVICE_TYPES_def)
  moreover have "replicate 5 False = [False, False, False, False, False]"
    by (simp add: eval_nat_numeral)
  ultimately
  have "replicate (unat NUM_DEVICE_TYPES) False = [False, False, False, False, False]"
    by (simp only:)
  then show ?thesis
    by (cases p) (simp_all add: GraphFunctionDeviceInfo_ctor_def)
qed

text \<open>A tracker built with CPU, GPU or TPU as its primary device, then marked with kinds
  other than \<open>INVALID\<close>: both steps return, and the state has five indicators, those of
  the primary and of the marked kinds except the all-devices kind, and a counter equal to
  the number of indicators set.\<close>

lemma reachable_run:
  assumes "p \<noteq> INVALID" and "p \<noteq> ALL'" and "INVALID \<notin> set ks"
  shows "\<exists>s0 s. GraphFunctionDeviceInfo_ctor p b = Inr s0 \<and>
           markDevicesUsed s0 ks = Inr s \<and>
           length (usedDeviceTypes s) = 5 \<and>
           (\<forall>k. usedDeviceTypes s ! unat (to_unsigned k) \<longleftrightarrow>
                k = p \<or> (k \<in> set ks \<and> k \<noteq> ALL')) \<and>
           \<not> usedDeviceTypes s ! 0 \<and> \<not> usedDeviceTypes s ! 4 \<and>
           unat (numUsedDeviceTypes s) = numSet (usedDeviceTypes s) \<and>
           primaryDeviceType s = p"
proof -
  from assms(2) obtain s0 where c: "GraphFunctionDeviceInfo_ctor p b = Inr s0"
    by (simp add: GraphFunctionDeviceInfo_ctor_def)
  from markDevicesUsed_total [OF assms(3)] obtain s where m: "markDevicesUsed s0 ks = Inr s"
    by blast
  note r = reachable_props [OF c m]
  from r have slots: "usedDeviceTypes s ! unat (to_unsigned k) \<longleftrightarrow>
      k = p \<or> (k \<in> set ks \<and> k \<noteq> ALL')" for k by simp
  from slots [of ALL'] assms have u4: "\<not> usedDeviceTypes s ! 4" by simp
  from slots [of INVALID] assms have u0: "\<not> usedDeviceTypes s ! 0" by simp
  from c m r u0 u4 show ?thesis by blast
qed

lemma tracker_invariant:
  assumes "p \<noteq> INVALID" and "GraphFunctionDeviceInfo_ctor p b = Inr s0"
    and "markDevicesUsed s0 ks = Inr s"
  shows "usedDeviceTypes s ! unat (to_unsigned (primaryDeviceType s)) \<and>
         unat (numUsedDeviceTypes s) = numSet (usedDeviceTypes s) \<and>
         \<not> usedDeviceTypes s ! unat (to_unsigned ALL') \<and>
         \<not> usedDeviceTypes s ! unat (to_unsigned INVALID)"
proof -
  note r = reachable_props [OF assms(2,3)]
  from r have slots: "usedDeviceTypes s ! unat (to_unsigned k) \<longleftrightarrow>
      k = p \<or> (k \<in> set ks \<and> k \<noteq> ALL')" for k by simp
  from slots [of ALL'] slots [of INVALID] slots [of p] r assms(1) show ?thesis by auto
qed

section \<open>The device catalog\<close>

text \<open>
  Claim C3. For every kind \<open>k\<close> other than \<open>INVALID\<close> (CPU, GPU, TPU and the
  all-devices kind), \<open>getDeviceString k\<close> returns a string, and \<open>getOpDeviceType\<close> on that
  string returns \<open>k\<close>.
\<close>

theorem getOpDeviceType_getDeviceString:
  "k \<noteq> INVALID \<Longrightarrow> \<exists>s. getDeviceString k = Inr s \<and> getOpDeviceType s = Inr k"
  by (cases k)
     (simp_all add: getOpDeviceType_def DEFAULT_CPU_DEVICE_def DEFAULT_GPU_DEVICE_def
        DEFAULT_TPU_DEVICE_def ALL_DEVICES_def)

theorem getOpDeviceType_getDeviceString_witness:
  "ALL' \<noteq> INVALID \<and> (\<exists>s. getDeviceString ALL' = Inr s \<and> getOpDeviceType s = Inr ALL')"
  using getOpDeviceType_getDeviceString [of ALL'] by simp

text \<open>
  Claim C5. \<open>getOpDeviceType s\<close> returns a kind exactly when \<open>s\<close> is, character for
  character, one of the four identifiers \<^verbatim>\<open>/device:CPU:0\<close>, \<^verbatim>\<open>/device:GPU:0\<close>,
  \<^verbatim>\<open>TPU_SYSTEM\<close> and \<^verbatim>\<open>ALL_DEVICES\<close>; on every other string it reaches
  \<^verbatim>\<open>llvm_unreachable("Unknown device type")\<close> and returns no kind.
\<close>

theorem getOpDeviceType_exact:
  "((\<exists>k. getOpDeviceType s = Inr k) \<longleftrightarrow>
      s \<in> {''/device:CPU:0'', ''/device:GPU:0'', ''TPU_SYSTEM'', ''ALL_DEVICES''}) \<and>
   (s \<notin> {''/device:CPU:0'', ''/device:GPU:0'', ''TPU_SYSTEM'', ''ALL_DEVICES''} \<longrightarrow>
      getOpDeviceType s = Inl (Unreachable ''Unknown device type''))"
  by (simp add: getOpDeviceType_def DEFAULT_CPU_DEVICE_def DEFAULT_GPU_DEVICE_def
        DEFAULT_TPU_DEVICE_def ALL_DEVICES_def)

theorem getOpDeviceType_exact_witness:
  "''CPU:0'' \<notin> {''/device:CPU:0'', ''/device:GPU:0'', ''TPU_SYSTEM'', ''ALL_DEVICES''} \<and>
   getOpDeviceType ''CPU:0'' = Inl (Unreachable ''Unknown device type'') \<and>
   ''TPU_SYSTEM'' \<in> {''/device:CPU:0'', ''/device:GPU:0'', ''TPU_SYSTEM'', ''ALL_DEVICES''} \<and>
   (\<exists>k. getOpDeviceType ''TPU_SYSTEM'' = Inr k)"
  using getOpDeviceType_exact [of "''CPU:0''"] getOpDeviceType_exact [of "''TPU_SYSTEM''"]
  by simp

text \<open>
  Claim C6. \<open>getDeviceString\<close> and \<open>getDeviceShortName\<close> both return a string for each of
  CPU, GPU, TPU and the all-devices kind, and both reach
  \<^verbatim>\<open>llvm_unreachable("Unsupported device type")\<close> for \<open>INVALID\<close>.
\<close>

theorem getDeviceString_getDeviceShortName_total:
  "(k \<in> {CPU, GPU, TPU, ALL'} \<longrightarrow>
      (\<exists>s. getDeviceString k = Inr s) \<and> (\<exists>s. getDeviceShortName k = Inr s)) \<and>
   getDeviceString INVALID = Inl (Unreachable ''Unsupported device type'') \<and>
   getDeviceShortName INVALID = Inl (Unreachable ''Unsupported device type'')"
  by (cases k) simp_all

theorem getDeviceString_getDeviceShortName_total_witness:
  "GPU \<in> {CPU, GPU, TPU, ALL'} \<and>
   (\<exists>s. getDeviceString GPU = Inr s) \<and> (\<exists>s. getDeviceShortName GPU = Inr s) \<and>
   getDeviceString INVALID = Inl (Unreachable ''Unsupported device type'') \<and>
   getDeviceShortName INVALID = Inl (Unreachable ''Unsupported device type'')"
  using getDeviceString_getDeviceShortName_total [of GPU] by simp

section \<open>The usage tracker\<close>

text \<open>
  Claim C4. On a tracker with its five indicators, \<open>markDeviceUsed\<close> fails its assertion
  for \<open>INVALID\<close>; it returns the state unchanged for the all-devices kind and for a kind
  whose indicator is already set; for any other kind it sets that kind's indicator, leaves
  every other indicator and field as it was, and adds one to \<open>numUsedDeviceTypes\<close> (in
  32-bit unsigned arithmetic, which is one more as a number unless the counter was at its
  maximum).
\<close>

theorem markDeviceUsed_effect:
  assumes len: "length (usedDeviceTypes s) = unat NUM_DEVICE_TYPES"
  shows
  "markDeviceUsed s INVALID = Inl (AssertionFailed ''device != DeviceType::INVALID'') \<and>
   markDeviceUsed s ALL' = Inr s \<and>
   (k \<noteq> INVALID \<and> usedDeviceTypes s ! unat (to_unsigned k) \<longrightarrow> markDeviceUsed s k = Inr s) \<and>
   (k \<noteq> INVALID \<and> k \<noteq> ALL' \<and> \<not> usedDeviceTypes s ! unat (to_unsigned k) \<longrightarrow>
      (\<exists>s'. markDeviceUsed s k = Inr s' \<and>
            usedDeviceTypes s' ! unat (to_unsigned k) \<and>
            (\<forall>j. j \<noteq> k \<longrightarrow>
               usedDeviceTypes s' ! unat (to_unsigned j) = usedDeviceTypes s ! unat (to_unsigned j)) \<and>
            length (usedDeviceTypes s') = length (usedDeviceTypes s) \<and>
            numUsedDeviceTypes s' = numUsedDeviceTypes s + 1 \<and>
            (numUsedDeviceTypes s \<noteq> - 1 \<longrightarrow>
               unat (numUsedDeviceTypes s') = Suc (unat (numUsedDeviceTypes s))) \<and>
            primaryDeviceType s' = primaryDeviceType s \<and>
            isTPUInfeedEnabled s' = isTPUInfeedEnabled s))"
proof -
  from len have l5: "length (usedDeviceTypes s) = 5" by (simp add: NUM_DEVICE_TYPES_def)
  have "unat (to_unsigned k) < length (usedDeviceTypes s)"
    using unat_to_unsigned_less l5 by simp
  then show ?thesis
    by (auto simp: markDeviceUsed_def unat_succ_not_max unat_to_unsigned_inj nth_list_update)
qed

theorem markDeviceUsed_effect_witness:
  "length [False, True, False, False, False] = unat NUM_DEVICE_TYPES \<and>
   markDeviceUsed
     \<lparr> primaryDeviceType = CPU, isTPUInfeedEnabled = False, numUsedDeviceTypes = 1,
       usedDeviceTypes = [False, True, False, False, False] \<rparr> INVALID
     = Inl (AssertionFailed ''device != DeviceType::INVALID'') \<and>
   markDeviceUsed
     \<lparr> primaryDeviceType = CPU, isTPUInfeedEnabled = False, numUsedDeviceTypes = 1,
       usedDeviceTypes = [False, True, False, False, False] \<rparr> ALL'
     = Inr \<lparr> primaryDeviceType = CPU, isTPUInfeedEnabled = False, numUsedDeviceTypes = 1,
             usedDeviceTypes = [False, True, False, False, False] \<rparr> \<and>
   markDeviceUsed
     \<lparr> primaryDeviceType = CPU, isTPUInfeedEnabled = False, numUsedDeviceTypes = 1,
       usedDeviceTypes = [False, True, False, False, False] \<rparr> GPU
     = Inr \<lparr> primaryDeviceType = CPU, isTPUInfeedEnabled = False, numUsedDeviceTypes = 2,
             usedDeviceTypes = [False, True, True, False, False] \<rparr>"
  using markDeviceUsed_effect
    [of "\<lparr> primaryDeviceType = CPU, isTPUInfeedEnabled = False, numUsedDeviceTypes = 1,
           usedDeviceTypes = [False, True, False, False, False] \<rparr>" GPU]
  by (simp add: NUM_DEVICE_TYPES_def markDeviceUsed_def)

text \<open>
  Claim C1. A tracker is built with one of the devices CPU, GPU and TPU as its primary
  device. Construction returns, and every sequence of \<open>markDeviceUsed\<close> calls without
  \<open>INVALID\<close> returns; in every state reached from the constructed one by
  \<open>markDeviceUsed\<close> calls the primary device is the one given, its indicator is set,
  \<open>numUsedDeviceTypes\<close> is the number of indicators set, and the indicators of the
  all-devices kind and of \<open>INVALID\<close> are not set.
\<close>

theorem GraphFunctionDeviceInfo_invariant:
  assumes "p \<noteq> INVALID" and "p \<noteq> ALL'"
  shows "\<exists>s0. GraphFunctionDeviceInfo_ctor p b = Inr s0 \<and>
           (\<forall>ks s. markDevicesUsed s0 ks = Inr s \<longrightarrow>
              primaryDeviceType s = p \<and>
              usedDeviceTypes s ! unat (to_unsigned (primaryDeviceType s)) \<and>
              unat (numUsedDeviceTypes s) = numSet (usedDeviceTypes s) \<and>
              \<not> usedDeviceTypes s ! unat (to_unsigned ALL') \<and>
              \<not> usedDeviceTypes s ! unat (to_unsigned INVALID)) \<and>
           (\<forall>ks. INVALID \<notin> set ks \<longrightarrow> (\<exists>s. markDevicesUsed s0 ks = Inr s))"
proof -
  from assms(2) obtain s0 where c: "GraphFunctionDeviceInfo_ctor p b = Inr s0"
    by (simp add: GraphFunctionDeviceInfo_ctor_def)
  have "primaryDeviceType s = p \<and>
        usedDeviceTypes s ! unat (to_unsigned (primaryDeviceType s)) \<and>
        unat (numUsedDeviceTypes s) = numSet (usedDeviceTypes s) \<and>
        \<not> usedDeviceTypes s ! unat (to_unsigned ALL') \<and>
        \<not> usedDeviceTypes s ! unat (to_unsigned INVALID)"
    if m: "markDevicesUsed s0 ks = Inr s" for ks s
  proof -
    from reachable_props [OF c m] have "primaryDeviceType s = p" by simp
    with tracker_invariant [OF assms(1) c m] show ?thesis by simp
  qed
  moreover have "\<exists>s. markDevicesUsed s0 ks = Inr s" if "INVALID \<notin> set ks" for ks
    using that by (rule markDevicesUsed_total)
  ultimately show ?thesis using c by blast
qed

theorem GraphFunctionDeviceInfo_invariant_witness:
  "GPU \<noteq> INVALID \<and> GPU \<noteq> ALL' \<and> INVALID \<notin> set [CPU, ALL', GPU] \<and>
   GraphFunctionDeviceInfo_ctor GPU False =
     Inr \<lparr> primaryDeviceType = GPU, isTPUInfeedEnabled = False, numUsedDeviceTypes = 1,
           usedDeviceTypes = [False, False, True, False, False] \<rparr> \<and>
   markDevicesUsed
     \<lparr> primaryDeviceType = GPU, isTPUInfeedEnabled = False, numUsedDeviceTypes = 1,
       usedDeviceTypes = [False, False, True, False, False] \<rparr> [CPU, ALL', GPU] =
     Inr \<lparr> primaryDeviceType = GPU, isTPUInfeedEnabled = False, numUsedDeviceTypes = 2,
           usedDeviceTypes = [False, True, True, False, False] \<rparr> \<and>
   [False, True, True, False, False] ! unat (to_unsigned GPU) \<and>
   unat (2 :: 32 word) = numSet [False, True, True, False, False] \<and>
   \<not> [False, True, True, False, False] ! unat (to_unsigned ALL') \<and>
   \<not> [False, True, True, False, False] ! unat (to_unsigned INVALID)"
proof -
  have c: "GraphFunctionDeviceInfo_ctor GPU False =
     Inr \<lparr> primaryDeviceType = GPU, isTPUInfeedEnabled = False, numUsedDeviceTypes = 1,
           usedDeviceTypes = [False, False, True, False, False] \<rparr>"
    by (simp add: ctor_five)
  have m: "markDevicesUsed
     \<lparr> primaryDeviceType = GPU, isTPUInfeedEnabled = False, numUsedDeviceTypes = 1,
       usedDeviceTypes = [False, False, True, False, False] \<rparr> [CPU, ALL', GPU] =
     Inr \<lparr> primaryDeviceType = GPU, isTPUInfeedEnabled = False, numUsedDeviceTypes = 2,
           usedDeviceTypes = [False, True, True, False, False] \<rparr>"
    by (simp add: markDeviceUsed_def)
  have "GPU \<noteq> INVALID" and "GPU \<noteq> ALL'" by simp_all
  from GraphFunctionDeviceInfo_invariant [OF this, of False]
  obtain s0 where c0: "GraphFunctionDeviceInfo_ctor GPU False = Inr s0"
    and inv: "\<forall>ks s. markDevicesUsed s0 ks = Inr s \<longrightarrow>
              primaryDeviceType s = GPU \<and>
              usedDeviceTypes s ! unat (to_unsigned (primaryDeviceType s)) \<and>
              unat (numUsedDeviceTypes s) = numSet (usedDeviceTypes s) \<and>
              \<not> usedDeviceTypes s ! unat (to_unsigned ALL') \<and>
              \<not> usedDeviceTypes s ! unat (to_unsigned INVALID)"
    by blast
  from c0 c have s0: "s0 = \<lparr> primaryDeviceType = GPU, isTPUInfeedEnabled = False,
      numUsedDeviceTypes = 1, usedDeviceTypes = [False, False, True, False, False] \<rparr>"
    by simp
  from inv [rule_format, OF m [folded s0]]
  have "[False, True, True, False, False] ! unat (to_unsigned GPU) \<and>
        unat (2 :: 32 word) = numSet [False, True, True, False, False] \<and>
        \<not> [False, True, True, False, False] ! unat (to_unsigned ALL') \<and>
        \<not> [False, True, True, False, False] ! unat (to_unsigned INVALID)"
    by simp
  with c m show ?thesis by simp
qed

text \<open>
  Claim C2, as stated: after the kinds of a set S are marked, the traversal yields exactly
  S together with the primary device. It fails when S holds the all-devices kind, which
  \<open>markDeviceUsed\<close> accepts and does not record: with CPU as primary and the all-devices
  kind marked, the traversal yields CPU alone.
\<close>

theorem usedDevices_enumeration_counterexample:
  "usedDevicesAfter CPU False [ALL'] = Inr [CPU] \<and> set [CPU] \<noteq> set [ALL'] \<union> {CPU}"
  by (simp add: usedDevicesAfter_def ctor_five markDeviceUsed_def getUsedDeviceTypes_def
        range_five)

text \<open>
  Claim C2, amended. For a primary device among CPU, GPU and TPU and any sequence of
  marked kinds without \<open>INVALID\<close>, construction, marking and traversal all return, and
  the traversal yields exactly the marked kinds and the primary device, the all-devices kind
  left out, each once, in strictly ascending order of the enumeration; it holds neither
  \<open>INVALID\<close> nor the all-devices kind.
\<close>

theorem usedDevices_enumeration:
  assumes "p \<noteq> INVALID" and "p \<noteq> ALL'" and "INVALID \<notin> set ks"
  shows "\<exists>ds. usedDevicesAfter p b ks = Inr ds \<and>
           set ds = (set ks \<union> {p}) - {ALL'} \<and>
           sorted_wrt (<) (map to_unsigned ds) \<and> distinct ds \<and>
           INVALID \<notin> set ds \<and> ALL' \<notin> set ds"
proof -
  from reachable_run [OF assms, of b]
  obtain s0 s where c: "GraphFunctionDeviceInfo_ctor p b = Inr s0"
    and m: "markDevicesUsed s0 ks = Inr s"
    and l5: "length (usedDeviceTypes s) = 5"
    and slots: "\<forall>k. usedDeviceTypes s ! unat (to_unsigned k) \<longleftrightarrow>
                  k = p \<or> (k \<in> set ks \<and> k \<noteq> ALL')"
    and u0: "\<not> usedDeviceTypes s ! 0" and u4: "\<not> usedDeviceTypes s ! 4"
    and n: "unat (numUsedDeviceTypes s) = numSet (usedDeviceTypes s)"
    by blast
  from range_props [OF l5 u4] obtain ds where
    r: "DeviceTypeMgr_range (usedDeviceTypes s) = Inr ds"
    and mem: "\<And>k. k \<in> set ds \<longleftrightarrow> k \<in> {CPU, GPU, TPU} \<and> usedDeviceTypes s ! unat (to_unsigned k)"
    and ord: "sorted_wrt (<) (map to_unsigned ds)" "distinct ds"
    by blast
  have "k \<in> set ds \<longleftrightarrow> k \<in> (set ks \<union> {p}) - {ALL'}" for k
  proof -
    from mem [of k] slots [rule_format, of k]
    have "k \<in> set ds \<longleftrightarrow> k \<in> {CPU, GPU, TPU} \<and> (k = p \<or> (k \<in> set ks \<and> k \<noteq> ALL'))"
      by simp
    with assms show ?thesis by (cases k) auto
  qed
  then have s: "set ds = (set ks \<union> {p}) - {ALL'}" by (intro set_eqI)
  from mem have i: "INVALID \<notin> set ds" and a: "ALL' \<notin> set ds" by simp_all
  from c m r have u: "usedDevicesAfter p b ks = Inr ds"
    by (simp add: usedDevicesAfter_def getUsedDeviceTypes_def)
  from u s ord i a show ?thesis by (intro exI [of _ ds] conjI)
qed

theorem usedDevices_enumeration_witness:
  "GPU \<noteq> INVALID \<and> GPU \<noteq> ALL' \<and> INVALID \<notin> set [TPU, ALL', CPU, TPU] \<and>
   usedDevicesAfter GPU True [TPU, ALL', CPU, TPU] = Inr [CPU, GPU, TPU] \<and>
   set [CPU, GPU, TPU] = (set [TPU, ALL', CPU, TPU] \<union> {GPU}) - {ALL'} \<and>
   sorted_wrt (<) (map to_unsigned [CPU, GPU, TPU]) \<and> distinct [CPU, GPU, TPU]"
proof -
  have run: "usedDevicesAfter GPU True [TPU, ALL', CPU, TPU] = Inr [CPU, GPU, TPU]"
    by (simp add: usedDevicesAfter_def ctor_five markDeviceUsed_def getUsedDeviceTypes_def
          range_five)
  from usedDevices_enumeration [of GPU "[TPU, ALL', CPU, TPU]" True]
  have "set [CPU, GPU, TPU] = (set [TPU, ALL', CPU, TPU] \<union> {GPU}) - {ALL'} \<and>
        sorted_wrt (<) (map to_unsigned [CPU, GPU, TPU]) \<and> distinct [CPU, GPU, TPU]"
    unfolding run by simp
  with run show ?thesis by simp
qed

section \<open>The iterator over the used devices\<close>

text \<open>
  Claim C8. Whatever the five indicators hold, the slot of \<open>INVALID\<close> included, a traversal
  from \<open>begin()\<close> to \<open>end()\<close> that returns yields no \<open>INVALID\<close>; it returns whenever the
  slot of the all-devices kind is not set; and the slot of \<open>INVALID\<close> has no effect on
  it, since \<open>begin()\<close> starts at index 0 and increments before the first read.
\<close>

theorem traversal_never_yields_INVALID:
  assumes "length used = unat NUM_DEVICE_TYPES"
  shows "(\<forall>ds. DeviceTypeMgr_range used = Inr ds \<longrightarrow> INVALID \<notin> set ds) \<and>
         (\<not> used ! unat (to_unsigned ALL') \<longrightarrow> (\<exists>ds. DeviceTypeMgr_range used = Inr ds)) \<and>
         (\<forall>b. DeviceTypeMgr_range (used[unat (to_unsigned INVALID) := b]) = DeviceTypeMgr_range used)"
proof -
  from assms have l5: "length used = 5" by (simp add: NUM_DEVICE_TYPES_def)
  from range_result [OF l5] range_props [OF l5] range_ignores_slot0 [OF l5]
  show ?thesis by auto
qed

theorem traversal_never_yields_INVALID_witness:
  "length [True, True, False, True, False] = unat NUM_DEVICE_TYPES \<and>
   DeviceTypeMgr_range [True, True, False, True, False] = Inr [CPU, TPU] \<and>
   INVALID \<notin> set [CPU, TPU] \<and>
   DeviceTypeMgr_range ([True, True, False, True, False][unat (to_unsigned INVALID) := False])
     = DeviceTypeMgr_range [True, True, False, True, False]"
  using traversal_never_yields_INVALID [of "[True, True, False, True, False]"]
  by (simp add: NUM_DEVICE_TYPES_def range_five)

text \<open>
  Claim C9. When the slots of \<open>INVALID\<close> and of the all-devices kind are not set, no
  assertion of \<open>operator++\<close> fails: every increment returns, whatever index the iterator
  is at, so \<open>begin()\<close> returns and the traversal up to \<open>end()\<close> returns its list.
\<close>

theorem iterator_incr_assertions_hold:
  assumes "length used = unat NUM_DEVICE_TYPES"
    and "\<not> used ! unat (to_unsigned INVALID)" and "\<not> used ! unat (to_unsigned ALL')"
  shows "(\<forall>idx. \<exists>it'. iterator_incr \<lparr> it_usedDeviceTypes = used, deviceIdx = idx \<rparr> = Inr it') \<and>
         (\<exists>b. DeviceTypeMgr_begin used = Inr b) \<and>
         (\<exists>ds. DeviceTypeMgr_range used = Inr ds)"
proof -
  from assms have l5: "length used = 5" and u0: "\<not> used ! 0" and u4: "\<not> used ! 4"
    by (simp_all add: NUM_DEVICE_TYPES_def)
  have a: "\<exists>it'. iterator_incr \<lparr> it_usedDeviceTypes = used, deviceIdx = idx \<rparr> = Inr it'" for idx
    by (rule iterator_incr_no_assert [OF u0 u4]) simp
  from a [of 0] have "\<exists>b. DeviceTypeMgr_begin used = Inr b"
    by (simp add: DeviceTypeMgr_begin_def iterator_ctor_def NUM_DEVICE_TYPES_def)
  with a range_props [OF l5 u4] show ?thesis by blast
qed

theorem iterator_incr_assertions_hold_witness:
  "length [False, True, False, True, False] = unat NUM_DEVICE_TYPES \<and>
   \<not> [False, True, False, True, False] ! unat (to_unsigned INVALID) \<and>
   \<not> [False, True, False, True, False] ! unat (to_unsigned ALL') \<and>
   (\<forall>idx. \<exists>it'. iterator_incr
       \<lparr> it_usedDeviceTypes = [False, True, False, True, False], deviceIdx = idx \<rparr> = Inr it') \<and>
   (\<exists>b. DeviceTypeMgr_begin [False, True, False, True, False] = Inr b) \<and>
   DeviceTypeMgr_range [False, True, False, True, False] = Inr [CPU, TPU]"
  using iterator_incr_assertions_hold [of "[False, True, False, True, False]"]
  by (simp add: NUM_DEVICE_TYPES_def range_five)

text \<open>
  Claim C10. For a primary device other than \<open>INVALID\<close> and the all-devices kind, and any
  sequence of \<open>markDeviceUsed\<close> calls with kinds other than \<open>INVALID\<close>, construction and
  marking return, and the traversal of the state's used devices returns a list whose
  length is \<open>numUsedDeviceTypes\<close>.
\<close>

theorem traversal_length_is_numUsedDeviceTypes:
  assumes "p \<noteq> INVALID" and "p \<noteq> ALL'" and "INVALID \<notin> set ks"
  shows "\<exists>s0 s ds. GraphFunctionDeviceInfo_ctor p b = Inr s0 \<and>
           markDevicesUsed s0 ks = Inr s \<and>
           DeviceTypeMgr_range (getUsedDeviceTypes s) = Inr ds \<and>
           length ds = unat (numUsedDeviceTypes s)"
proof -
  from reachable_run [OF assms, of b]
  obtain s0 s where c: "GraphFunctionDeviceInfo_ctor p b = Inr s0"
    and m: "markDevicesUsed s0 ks = Inr s"
    and l5: "length (usedDeviceTypes s) = 5"
    and slots: "\<forall>k. usedDeviceTypes s ! unat (to_unsigned k) \<longleftrightarrow>
                  k = p \<or> (k \<in> set ks \<and> k \<noteq> ALL')"
    and u0: "\<not> usedDeviceTypes s ! 0" and u4: "\<not> usedDeviceTypes s ! 4"
    and n: "unat (numUsedDeviceTypes s) = numSet (usedDeviceTypes s)"
    by blast
  from range_props [OF l5 u4] u0 n obtain ds where
    "DeviceTypeMgr_range (usedDeviceTypes s) = Inr ds" "length ds = unat (numUsedDeviceTypes s)"
    by auto
  with c m show ?thesis by (auto simp: getUsedDeviceTypes_def)
qed

theorem traversal_length_is_numUsedDeviceTypes_witness:
  "TPU \<noteq> INVALID \<and> TPU \<noteq> ALL' \<and> INVALID \<notin> set [CPU, ALL', TPU, CPU] \<and>
   (\<exists>s0 s ds. GraphFunctionDeviceInfo_ctor TPU False = Inr s0 \<and>
           markDevicesUsed s0 [CPU, ALL', TPU, CPU] = Inr s \<and>
           DeviceTypeMgr_range (getUsedDeviceTypes s) = Inr ds \<and>
           length ds = unat (numUsedDeviceTypes s))"
  using traversal_length_is_numUsedDeviceTypes [of TPU "[CPU, ALL', TPU, CPU]" False] by simp

section \<open>Transfers of a partitioning session\<close>

lemma append_node_keys: "map fst (append_node d x sgs) = map fst sgs"
  by (induction sgs) (auto simp: append_node_def)

lemma append_node_mset:
  "distinct (map fst sgs) \<Longrightarrow> d \<in> set (map fst sgs) \<Longrightarrow>
     mset (concat (map snd (append_node d x sgs))) = add_mset x (mset (concat (map snd sgs)))"
proof (induction sgs)
  case Nil
  then show ?case by simp
next
  case (Cons a sgs)
  obtain k ns where a: "a = (k, ns)" by (cases a)
  show ?case
  proof (cases "k = d")
    case True
    with Cons.prems a have "d \<notin> set (map fst sgs)" by simp
    then have "append_node d x sgs = sgs"
      by (induction sgs) (auto simp: append_node_def)
    with True a show ?thesis by (simp add: append_node_def)
  next
    case False
    with Cons a have "mset (concat (map snd (append_node d x sgs)))
        = add_mset x (mset (concat (map snd sgs)))" by simp
    with False a show ?thesis by (simp add: append_node_def)
  qed
qed

lemma all_nodes_append:
  assumes "distinct (map fst (subgraphs st))" and "d \<in> set (map fst (subgraphs st))"
  shows "mset (all_nodes (st \<lparr> subgraphs := append_node d x (subgraphs st) \<rparr>))
           = add_mset x (mset (all_nodes st))"
  using append_node_mset [OF assms] by (simp add: all_nodes_def)

lemma partition_inv_copy:
  assumes "partition_inv n0 st" and "d \<in> set (map fst (subgraphs st))"
  shows "partition_inv n0 (st \<lparr> subgraphs := append_node d (Copy v) (subgraphs st) \<rparr>)"
    (is "partition_inv n0 ?st")
proof -
  from assms have dk: "distinct (map fst (subgraphs st))" by (simp add: partition_inv_def)
  have n: "mset (all_nodes ?st) = add_mset (Copy v) (mset (all_nodes st))"
    by (rule all_nodes_append [OF dk assms(2)])
  have s: "mset (sends ?st) = mset (sends st)" and r: "mset (recvs ?st) = mset (recvs st)"
    by (simp_all add: sends_def recvs_def n)
  have ms: "mset (map f (sends ?st)) = mset (map f (sends st))"
    and mr: "mset (map f (recvs ?st)) = mset (map f (recvs st))" for f :: "node \<Rightarrow> 'b"
    by (simp_all add: s r)
  have "distinct (map transferId (sends ?st)) \<longleftrightarrow> distinct (map transferId (sends st))"
    by (rule mset_eq_imp_distinct_iff) (rule ms)
  with assms(1) have d: "distinct (map transferId (sends ?st))"
    by (simp add: partition_inv_def)
  have se: "set (sends ?st) = set (sends st)" by (rule mset_eq_setD [OF s])
  have le: "length (sends ?st) = length (sends st)" by (rule mset_eq_length [OF s])
  have pairs: "mset (map transfer_of (recvs ?st)) = mset (map transfer_of (sends ?st))"
    using assms(1) unfolding ms mr by (simp add: partition_inv_def)
  have bounds: "\<forall>x \<in> set (sends ?st). n0 \<le> transferId x \<and> transferId x < nextTensorTransferId ?st"
    using assms(1) unfolding se by (auto simp: partition_inv_def)
  have cnt: "nextTensorTransferId ?st = n0 + int (length (sends ?st))"
    using assms(1) unfolding le by (simp add: partition_inv_def)
  have keys: "map fst (subgraphs ?st) = map fst (subgraphs st)"
    by (simp add: append_node_keys)
  have prod: "\<forall>(v, p) \<in> set (producedOn ?st). p = ALL' \<or> p \<in> set (map fst (subgraphs ?st))"
    using assms(1) unfolding keys by (simp add: partition_inv_def)
  from dk keys have "distinct (map fst (subgraphs ?st))" by simp
  with pairs d bounds cnt prod show ?thesis
    unfolding partition_inv_def by blast
qed

lemma partition_inv_transfer:
  assumes "partition_inv n0 st" and "d \<in> set (map fst (subgraphs st))"
    and "p \<in> set (map fst (subgraphs st))"
  shows "partition_inv n0
           (st \<lparr> subgraphs :=
                   append_node d (Recv v (nextTensorTransferId st))
                     (append_node p (Send v (nextTensorTransferId st)) (subgraphs st)),
                 transferred := tr,
                 nextTensorTransferId := nextTensorTransferId st + 1 \<rparr>)"
    (is "partition_inv n0 ?st")
proof -
  let ?t = "nextTensorTransferId st"
  let ?mid = "st \<lparr> subgraphs := append_node p (Send v ?t) (subgraphs st) \<rparr>"
  from assms have dk: "distinct (map fst (subgraphs st))" by (simp add: partition_inv_def)
  have m1: "mset (all_nodes ?mid) = add_mset (Send v ?t) (mset (all_nodes st))"
    by (rule all_nodes_append [OF dk assms(3)])
  have "mset (all_nodes (?mid \<lparr> subgraphs := append_node d (Recv v ?t) (subgraphs ?mid) \<rparr>))
          = add_mset (Recv v ?t) (mset (all_nodes ?mid))"
    using dk assms(2) by (intro all_nodes_append) (simp_all add: append_node_keys)
  then have n: "mset (all_nodes ?st) = add_mset (Recv v ?t) (add_mset (Send v ?t) (mset (all_nodes st)))"
    by (simp add: all_nodes_def m1 [unfolded all_nodes_def, simplified])
  have s: "mset (sends ?st) = mset (Send v ?t # sends st)"
    and r: "mset (recvs ?st) = mset (Recv v ?t # recvs st)"
    by (simp_all add: sends_def recvs_def n)
  have ms: "mset (map f (sends ?st)) = mset (map f (Send v ?t # sends st))"
    and mr: "mset (map f (recvs ?st)) = mset (map f (Recv v ?t # recvs st))" for f :: "node \<Rightarrow> 'b"
    by (simp_all add: s r)
  from assms(1) have fresh: "?t \<notin> set (map transferId (sends st))"
    by (auto simp: partition_inv_def)
  have "distinct (map transferId (sends ?st))
      \<longleftrightarrow> distinct (map transferId (Send v ?t # sends st))"
    by (rule mset_eq_imp_distinct_iff) (rule ms)
  with fresh assms(1) have d: "distinct (map transferId (sends ?st))"
    by (simp add: partition_inv_def)
  have se: "set (sends ?st) = set (Send v ?t # sends st)" by (rule mset_eq_setD [OF s])
  have le: "length (sends ?st) = length (Send v ?t # sends st)" by (rule mset_eq_length [OF s])
  have pairs: "mset (map transfer_of (recvs ?st)) = mset (map transfer_of (sends ?st))"
    using assms(1) unfolding ms mr by (simp add: partition_inv_def transfer_of_def)
  have bounds: "\<forall>x \<in> set (sends ?st). n0 \<le> transferId x \<and> transferId x < nextTensorTransferId ?st"
    using assms(1) unfolding se by (auto simp: partition_inv_def)
  have cnt: "nextTensorTransferId ?st = n0 + int (length (sends ?st))"
    using assms(1) unfolding le by (simp add: partition_inv_def)
  have keys: "map fst (subgraphs ?st) = map fst (subgraphs st)"
    by (simp add: append_node_keys)
  have prod: "\<forall>(v, p) \<in> set (producedOn ?st). p = ALL' \<or> p \<in> set (map fst (subgraphs ?st))"
    using assms(1) unfolding keys by (simp add: partition_inv_def)
  from dk keys have "distinct (map fst (subgraphs ?st))" by simp
  with pairs d bounds cnt prod show ?thesis
    unfolding partition_inv_def by blast
qed

lemma rewrite_operand_inv:
  assumes "partition_inv n0 st" and "d \<in> set (map fst (subgraphs st))"
    and "rewrite_operand d st v = Inr st'"
  shows "partition_inv n0 st' \<and> map fst (subgraphs st') = map fst (subgraphs st) \<and>
         producedOn st' = producedOn st"
proof (cases "map_of (producedOn st) v")
  case None
  with assms(3) show ?thesis by (simp add: rewrite_operand_def)
next
  case (Some p)
  show ?thesis
  proof (cases "p = ALL' \<or> p = d \<or> map_of (transferred st) (v, d) \<noteq> None")
    case True
    with Some assms(3) have "st' = st"
      by (auto simp: rewrite_operand_def split: if_splits option.splits)
    with assms(1) show ?thesis by simp
  next
    case False
    from Some have "(v, p) \<in> set (producedOn st)" by (rule map_of_SomeD)
    with assms(1) False have pk: "p \<in> set (map fst (subgraphs st))"
      by (auto simp: partition_inv_def)
    from False Some assms(3) have st': "st' = st \<lparr> subgraphs :=
                   append_node d (Recv v (nextTensorTransferId st))
                     (append_node p (Send v (nextTensorTransferId st)) (subgraphs st)),
                 transferred := ((v, d), nextTensorTransferId st) # transferred st,
                 nextTensorTransferId := nextTensorTransferId st + 1 \<rparr>"
      by (auto simp: rewrite_operand_def)
    show ?thesis unfolding st'
      using partition_inv_transfer [OF assms(1,2) pk] by (simp add: append_node_keys)
  qed
qed

lemma rewrite_operands_inv:
  "partition_inv n0 st \<Longrightarrow> d \<in> set (map fst (subgraphs st)) \<Longrightarrow>
   rewrite_operands d st vs = Inr st' \<Longrightarrow>
   partition_inv n0 st' \<and> map fst (subgraphs st') = map fst (subgraphs st) \<and>
   producedOn st' = producedOn st"
proof (induction vs arbitrary: st)
  case Nil
  then show ?case by simp
next
  case (Cons v vs)
  from Cons.prems(3) obtain st1 where s1: "rewrite_operand d st v = Inr st1"
    and rest: "rewrite_operands d st1 vs = Inr st'"
    by (auto split: sum.splits)
  from rewrite_operand_inv [OF Cons.prems(1,2) s1]
  have i1: "partition_inv n0 st1" and k1: "map fst (subgraphs st1) = map fst (subgraphs st)"
    and p1: "producedOn st1 = producedOn st"
    by simp_all
  from Cons.IH [OF i1 _ rest] k1 p1 Cons.prems(2) show ?case by simp
qed

lemma place_copy_inv:
  assumes "partition_inv n0 st" and "place_copy d opn st = Inr st'"
  shows "partition_inv n0 st' \<and> map fst (subgraphs st') = map fst (subgraphs st) \<and>
         d \<in> set (map fst (subgraphs st)) \<and> producedOn st' = producedOn st"
proof -
  from assms(2) have dk: "d \<in> set (map fst (subgraphs st))"
    by (auto simp: place_copy_def split: if_splits)
  with assms(2) obtain st1 where r: "rewrite_operands d st (op_operands opn) = Inr st1"
    and st': "st' = st1 \<lparr> subgraphs := append_node d (Copy (op_value opn)) (subgraphs st1) \<rparr>"
    by (auto simp: place_copy_def split: if_splits sum.splits)
  from rewrite_operands_inv [OF assms(1) dk r]
  have i1: "partition_inv n0 st1" and k1: "map fst (subgraphs st1) = map fst (subgraphs st)"
    and p1: "producedOn st1 = producedOn st"
    by simp_all
  from partition_inv_copy [OF i1, of d "op_value opn"] dk k1 p1 show ?thesis
    by (simp add: st' append_node_keys)
qed

lemma place_copies_inv:
  "partition_inv n0 st \<Longrightarrow> place_copies ds opn st = Inr st' \<Longrightarrow>
   partition_inv n0 st' \<and> map fst (subgraphs st') = map fst (subgraphs st) \<and>
   producedOn st' = producedOn st"
proof (induction ds arbitrary: st)
  case Nil
  then show ?case by simp
next
  case (Cons d ds)
  from Cons.prems(2) obtain st1 where s1: "place_copy d opn st = Inr st1"
    and rest: "place_copies ds opn st1 = Inr st'"
    by (auto split: sum.splits)
  from place_copy_inv [OF Cons.prems(1) s1]
  have i1: "partition_inv n0 st1" and k1: "map fst (subgraphs st1) = map fst (subgraphs st)"
    and p1: "producedOn st1 = producedOn st"
    by simp_all
  from Cons.IH [OF i1 rest] k1 p1 show ?case by simp
qed

lemma partition_inv_produced:
  assumes "partition_inv n0 st" and "p = ALL' \<or> p \<in> set (map fst (subgraphs st))"
  shows "partition_inv n0 (st \<lparr> producedOn := (v, p) # producedOn st \<rparr>)"
proof -
  have "sends (st \<lparr> producedOn := (v, p) # producedOn st \<rparr>) = sends st"
    and "recvs (st \<lparr> producedOn := (v, p) # producedOn st \<rparr>) = recvs st"
    by (simp_all add: sends_def recvs_def all_nodes_def)
  with assms show ?thesis
    unfolding partition_inv_def by auto
qed

lemma partition_op_inv:
  assumes "partition_inv n0 st" and "partition_op st opn = Inr st'"
  shows "partition_inv n0 st'"
proof (cases "op_device opn = ALL'")
  case True
  with assms(2) obtain st1 where
    s1: "place_copies (map fst (subgraphs st)) opn st = Inr st1"
    and st': "st' = st1 \<lparr> producedOn := (op_value opn, ALL') # producedOn st1 \<rparr>"
    by (auto simp: partition_op_def split: if_splits sum.splits)
  from place_copies_inv [OF assms(1) s1] have "partition_inv n0 st1" by simp
  then show ?thesis unfolding st' by (rule partition_inv_produced) simp
next
  case False
  with assms(2) obtain st1 where
    s1: "place_copy (op_device opn) opn st = Inr st1"
    and st': "st' = st1 \<lparr> producedOn := (op_value opn, op_device opn) # producedOn st1 \<rparr>"
    by (auto simp: partition_op_def split: if_splits sum.splits)
  from place_copy_inv [OF assms(1) s1]
  have "partition_inv n0 st1" and "op_device opn \<in> set (map fst (subgraphs st1))"
    by simp_all
  then show ?thesis unfolding st' by (intro partition_inv_produced) simp_all
qed

lemma partition_ops_inv:
  "partition_inv n0 st \<Longrightarrow> partition_ops st ops = Inr st' \<Longrightarrow> partition_inv n0 st'"
proof (induction ops arbitrary: st)
  case Nil
  then show ?case by simp
next
  case (Cons opn ops)
  from Cons.prems(2) obtain st1 where s1: "partition_op st opn = Inr st1"
    and rest: "partition_ops st1 ops = Inr st'"
    by (auto split: sum.splits)
  from Cons.IH [OF partition_op_inv [OF Cons.prems(1) s1] rest] show ?case .
qed

lemma partition_inv_init:
  assumes "distinct used"
  shows "partition_inv n0 \<lparr> subgraphs = map (\<lambda>d. (d, [])) used, producedOn = [],
           transferred = [], nextTensorTransferId = n0 \<rparr>"
proof -
  have k: "map fst (map (\<lambda>d. (d, [] :: node list)) used) = used"
    by (induction used) simp_all
  have n: "concat (map snd (map (\<lambda>d. (d, [] :: node list)) used)) = []"
    by (induction used) simp_all
  show ?thesis
    unfolding partition_inv_def sends_def recvs_def all_nodes_def partitioner.simps k n
    using assms by simp
qed

lemma range_distinct:
  assumes "length used = 5" and "DeviceTypeMgr_range used = Inr ds"
  shows "distinct ds"
proof -
  from assms(1) obtain b0 b1 b2 b3 b4 where u: "used = [b0, b1, b2, b3, b4]"
    by (rule length_five)
  from assms(2) show ?thesis unfolding u range_five by (auto split: if_splits)
qed

lemma filter_distinct_map:
  "distinct (map f xs) \<Longrightarrow> r \<in> set xs \<Longrightarrow> filter (\<lambda>y. f y = f r) xs = [r]"
proof (induction xs)
  case Nil
  then show ?case by simp
next
  case (Cons a xs)
  show ?case
  proof (cases "a = r")
    case True
    with Cons.prems(1) have "f r \<notin> f ` set xs" by simp
    then have "\<forall>y \<in> set xs. f y \<noteq> f r" by (metis image_eqI)
    then have "filter (\<lambda>y. f y = f r) xs = []" by (simp add: filter_empty_conv)
    with True show ?thesis by simp
  next
    case False
    with Cons.prems have "r \<in> set xs" and "f a \<noteq> f r" by auto
    with Cons show ?thesis by simp
  qed
qed

lemma matching_recv:
  assumes "partition_inv n0 st" and "x \<in> set (sends st)"
  shows "filter (\<lambda>r. transferId r = transferId x) (recvs st)
           = [Recv (transferred_value x) (transferId x)]"
proof -
  from assms(1) have eq: "mset (map transfer_of (recvs st)) = mset (map transfer_of (sends st))"
    and ds: "distinct (map transferId (sends st))"
    by (simp_all add: partition_inv_def)
  have tid: "map transferId ys = map snd (map transfer_of ys)" for ys
    by (simp add: transfer_of_def)
  from eq have "mset (map snd (map transfer_of (recvs st)))
      = mset (map snd (map transfer_of (sends st)))"
    by (simp only: mset_map)
  then have "mset (map transferId (recvs st)) = mset (map transferId (sends st))"
    by (simp only: tid)
  then have "distinct (map transferId (recvs st)) \<longleftrightarrow> distinct (map transferId (sends st))"
    by (rule mset_eq_imp_distinct_iff)
  with ds have dr: "distinct (map transferId (recvs st))" by simp
  from assms(2) have "transfer_of x \<in> set (map transfer_of (sends st))" by simp
  also have "set (map transfer_of (sends st)) = set (map transfer_of (recvs st))"
    by (rule mset_eq_setD [OF eq [symmetric]])
  finally obtain r where r: "r \<in> set (recvs st)" and tr: "transfer_of r = transfer_of x"
    by auto
  from r have "is_Recv r" by (simp add: recvs_def)
  with tr have "r = Recv (transferred_value x) (transferId x)"
    by (cases r) (simp_all add: transfer_of_def)
  moreover from tr have "transferId r = transferId x" by (simp add: transfer_of_def)
  moreover note filter_distinct_map [OF dr r]
  ultimately show ?thesis by simp
qed

text \<open>
  Claim C7, on the session modelled from the specification. In any session that returns,
  no two sends carry the same TransferId; every send's TransferId is carried by exactly one
  receive, which is for the same value; the receives are exactly the matches of the sends;
  every TransferId of the session lies between the counter's value at the start and its
  value at the end; and the counter has advanced by the number of sends.
\<close>

theorem DevicePartitioner_transfer_pairing:
  assumes "length (usedDeviceTypes deviceInfo) = unat NUM_DEVICE_TYPES"
    and "DevicePartitioner srcFn deviceInfo n0 = Inr st"
  shows "distinct (map transferId (sends st)) \<and>
         (\<forall>x \<in> set (sends st).
            filter (\<lambda>r. transferId r = transferId x) (recvs st)
              = [Recv (transferred_value x) (transferId x)]) \<and>
         mset (map transfer_of (recvs st)) = mset (map transfer_of (sends st)) \<and>
         (\<forall>x \<in> set (sends st). n0 \<le> transferId x \<and> transferId x < nextTensorTransferId st) \<and>
         nextTensorTransferId st = n0 + int (length (sends st))"
proof -
  from assms(1) have l5: "length (usedDeviceTypes deviceInfo) = 5"
    by (simp add: NUM_DEVICE_TYPES_def)
  from assms(2) obtain used where
    u: "DeviceTypeMgr_range (usedDeviceTypes deviceInfo) = Inr used"
    and run: "partition_ops \<lparr> subgraphs = map (\<lambda>d. (d, [])) used, producedOn = [],
                transferred = [], nextTensorTransferId = n0 \<rparr> srcFn = Inr st"
    by (auto simp: DevicePartitioner_def getUsedDeviceTypes_def split: sum.splits)
  from range_distinct [OF l5 u] have "distinct used" .
  from partition_ops_inv [OF partition_inv_init [OF this] run]
  have inv: "partition_inv n0 st" .
  then have "distinct (map transferId (sends st))"
    and "mset (map transfer_of (recvs st)) = mset (map transfer_of (sends st))"
    and "\<forall>x \<in> set (sends st). n0 \<le> transferId x \<and> transferId x < nextTensorTransferId st"
    and "nextTensorTransferId st = n0 + int (length (sends st))"
    unfolding partition_inv_def by blast+
  moreover from inv
  have "\<forall>x \<in> set (sends st). filter (\<lambda>r. transferId r = transferId x) (recvs st)
          = [Recv (transferred_value x) (transferId x)]"
    by (blast intro: matching_recv)
  ultimately show ?thesis by (intro conjI)
qed

theorem DevicePartitioner_transfer_pairing_witness:
  "length (usedDeviceTypes
      \<lparr> primaryDeviceType = CPU, isTPUInfeedEnabled = False, numUsedDeviceTypes = 2,
        usedDeviceTypes = [False, True, True, False, False] \<rparr>) = unat NUM_DEVICE_TYPES \<and>
   DevicePartitioner
     [\<lparr> op_value = 0, op_device = CPU, op_operands = [] \<rparr>,
      \<lparr> op_value = 1, op_device = GPU, op_operands = [0] \<rparr>,
      \<lparr> op_value = 2, op_device = GPU, op_operands = [0, 1] \<rparr>,
      \<lparr> op_value = 3, op_device = CPU, op_operands = [2] \<rparr>]
     \<lparr> primaryDeviceType = CPU, isTPUInfeedEnabled = False, numUsedDeviceTypes = 2,
       usedDeviceTypes = [False, True, True, False, False] \<rparr> 1
     = Inr \<lparr> subgraphs = [(CPU, [Copy 0, Send 0 1, Recv 2 2, Copy 3]),
                          (GPU, [Recv 0 1, Copy 1, Copy 2, Send 2 2])],
             producedOn = [(3, CPU), (2, GPU), (1, GPU), (0, CPU)],
             transferred = [((2, CPU), 2), ((0, GPU), 1)],
             nextTensorTransferId = 3 \<rparr> \<and>
   sends \<lparr> subgraphs = [(CPU, [Copy 0, Send 0 1, Recv 2 2, Copy 3]),
                        (GPU, [Recv 0 1, Copy 1, Copy 2, Send 2 2])],
           producedOn = [(3, CPU), (2, GPU), (1, GPU), (0, CPU)],
           transferred = [((2, CPU), 2), ((0, GPU), 1)],
           nextTensorTransferId = 3 \<rparr> = [Send 0 1, Send 2 2] \<and>
   recvs \<lparr> subgraphs = [(CPU, [Copy 0, Send 0 1, Recv 2 2, Copy 3]),
                        (GPU, [Recv 0 1, Copy 1, Copy 2, Send 2 2])],
           producedOn = [(3, CPU), (2, GPU), (1, GPU), (0, CPU)],
           transferred = [((2, CPU), 2), ((0, GPU), 1)],
           nextTensorTransferId = 3 \<rparr> = [Recv 2 2, Recv 0 1] \<and>
   distinct (map transferId [Send 0 1, Send 2 2])"
  using DevicePartitioner_transfer_pairing
    [of "\<lparr> primaryDeviceType = CPU, isTPUInfeedEnabled = False, numUsedDeviceTypes = 2,
           usedDeviceTypes = [False, True, True, False, False] \<rparr>"
        "[\<lparr> op_value = 0, op_device = CPU, op_operands = [] \<rparr>,
          \<lparr> op_value = 1, op_device = GPU, op_operands = [0] \<rparr>,
          \<lparr> op_value = 2, op_device = GPU, op_operands = [0, 1] \<rparr>,
          \<lparr> op_value = 3, op_device = CPU, op_operands = [2] \<rparr>]" 1]
  by (simp add: NUM_DEVICE_TYPES_def DevicePartitioner_def getUsedDeviceTypes_def range_five
        partition_op_def place_copy_def rewrite_operand_def append_node_def
        sends_def recvs_def all_nodes_def)

end
